theory Spec2Isabelle
  imports Main "HOL-Library.Sublist" "HOL-Library.AList" "HOL-Library.Multiset"
begin

section \<open>Configuration\<close>

definition MAX_QUESTION_LEN :: nat where
  "MAX_QUESTION_LEN = 1000"

definition PREFILTER_TOP_K :: int where
  "PREFILTER_TOP_K = 50"

definition MAX_SELECTED :: nat where
  "MAX_SELECTED = 4"

section \<open>JavaScript strings\<close>

text \<open>
  A JavaScript string is a sequence of UTF-16 code units. The model uses \<^typ>\<open>string\<close>,
  whose characters are the code units below 256 (Latin-1, where code unit and code point
  coincide); the string methods of \<^verbatim>\<open>route.ts\<close> are written out on that range.
\<close>

text \<open>\<^verbatim>\<open>\w\<close> of a regular expression without flags: \<^verbatim>\<open>[A-Za-z0-9_]\<close>.\<close>

definition is_word_char :: "char \<Rightarrow> bool" where
  "is_word_char c =
     (let n = (of_char c :: nat)
      in (48 \<le> n \<and> n \<le> 57) \<or> (65 \<le> n \<and> n \<le> 90) \<or> n = 95 \<or> (97 \<le> n \<and> n \<le> 122))"

text \<open>
  White space and line terminators that \<^verbatim>\<open>String.prototype.trim\<close> strips, below 256:
  TAB, LF, VT, FF, CR, SPACE and NO-BREAK SPACE.
\<close>

definition is_ws :: "char \<Rightarrow> bool" where
  "is_ws c = (let n = (of_char c :: nat) in (9 \<le> n \<and> n \<le> 13) \<or> n = 32 \<or> n = 160)"

text \<open>
  \<^verbatim>\<open>toLowerCase\<close> on one code unit: A-Z, and the Latin-1 capitals U+00C0 to U+00DE
  without the multiplication sign U+00D7, move up by 32.
\<close>

definition lower_char :: "char \<Rightarrow> char" where
  "lower_char c =
     (let n = (of_char c :: nat)
      in if (65 \<le> n \<and> n \<le> 90) \<or> (192 \<le> n \<and> n \<le> 222 \<and> n \<noteq> 215)
         then char_of (n + 32) else c)"

definition toLowerCase :: "string \<Rightarrow> string" where
  "toLowerCase str = map lower_char str"

definition trim :: "string \<Rightarrow> string" where
  "trim str = rev (dropWhile is_ws (rev (dropWhile is_ws str)))"

text \<open>\<^verbatim>\<open>str.slice(0, n)\<close> for a literal \<open>n \<ge> 0\<close>.\<close>

definition slice_to :: "nat \<Rightarrow> string \<Rightarrow> string" where
  "slice_to n str = take n str"

text \<open>\<^verbatim>\<open>hay.includes(t)\<close>: \<open>t\<close> occurs in \<open>hay\<close> as a contiguous substring.\<close>

primrec str_includes :: "string \<Rightarrow> string \<Rightarrow> bool" where
  "str_includes [] t = (t = [])"
| "str_includes (c # cs) t = (prefix t (c # cs) \<or> str_includes cs t)"

text \<open>
  \<^verbatim>\<open>str.split(/\W+/)\<close>: the pieces between the maximal runs of non-word characters. A
  run at the start or at the end leaves an empty piece there, and the empty string
  splits into one empty piece.
\<close>

function split_nonword :: "string \<Rightarrow> string list" where
  "split_nonword str =
     (case dropWhile is_word_char str of
        [] \<Rightarrow> [takeWhile is_word_char str]
      | c # rest \<Rightarrow>
          takeWhile is_word_char str # split_nonword (dropWhile (\<lambda>x. \<not> is_word_char x) rest))"
  by pat_completeness auto
termination
proof (relation "measure length")
  show "wf (measure length)" by simp
next
  fix str :: string and c rest
  assume a: "dropWhile is_word_char str = c # rest"
  have "length (dropWhile (\<lambda>x. \<not> is_word_char x) rest) \<le> length rest"
    by (rule length_dropWhile_le)
  also have "length rest < length (dropWhile is_word_char str)"
    using a by simp
  also have "\<dots> \<le> length str"
    by (rule length_dropWhile_le)
  finally show "(dropWhile (\<lambda>x. \<not> is_word_char x) rest, str) \<in> measure length"
    by simp
qed

declare split_nonword.simps [simp del]

text \<open>\<^verbatim>\<open>arr.join(sep)\<close> on an array of strings.\<close>

fun join :: "string \<Rightarrow> string list \<Rightarrow> string" where
  "join sep [] = []"
| "join sep [x] = x"
| "join sep (x # y # ys) = x @ sep @ join sep (y # ys)"

section \<open>Keyword scoring for the prefilter\<close>

text \<open>\<^verbatim>\<open>query.toLowerCase().split(/\W+/).filter(Boolean)\<close>: the empty pieces are falsy.\<close>

definition query_terms :: "string \<Rightarrow> string list" where
  "query_terms q = filter (\<lambda>t. t \<noteq> []) (split_nonword (toLowerCase q))"

text \<open>The loop \<^verbatim>\<open>for (const t of terms) if (low.includes(t)) s += 1\<close>.\<close>

fun score_loop :: "string \<Rightarrow> string list \<Rightarrow> nat \<Rightarrow> nat" where
  "score_loop low [] acc = acc"
| "score_loop low (t # ts) acc = score_loop low ts (if str_includes low t then acc + 1 else acc)"

definition score :: "string \<Rightarrow> string \<Rightarrow> nat" where
  "score hay q = (let terms = query_terms q; low = toLowerCase hay in score_loop low terms 0)"

record PathDoc =
  path :: string
  contents :: "string list"
  preview :: string

record Candidate =
  idx :: nat
  doc :: PathDoc
  s :: nat

definition prefilter_score :: "PathDoc \<Rightarrow> string \<Rightarrow> nat" where
  "prefilter_score d q = score (path d) q * 2 + score (preview d) q"

text \<open>
  \<^verbatim>\<open>.sort((a, b) => b.s - a.s)\<close>. \<^verbatim>\<open>Array.prototype.sort\<close> is stable, and the
  comparator is a consistent order on the scores, so the result is the one stable
  arrangement by descending score: insertion from the right, each element passing
  the elements of the sorted rest that score strictly higher.
\<close>

fun insert_desc :: "Candidate \<Rightarrow> Candidate list \<Rightarrow> Candidate list" where
  "insert_desc x [] = [x]"
| "insert_desc x (y # ys) = (if s x < s y then y # insert_desc x ys else x # y # ys)"

definition sort_desc :: "Candidate list \<Rightarrow> Candidate list" where
  "sort_desc xs = foldr insert_desc xs []"

text \<open>
  \<^verbatim>\<open>arr.slice(0, e)\<close> for an integer \<open>e\<close>: a negative end counts from the end of the
  array, and the end is clamped to the length.
\<close>

definition slice0 :: "int \<Rightarrow> 'a list \<Rightarrow> 'a list" where
  "slice0 e xs = (if e < 0 then take (nat (int (length xs) + e)) xs else take (nat e) xs)"

text \<open>\<^verbatim>\<open>index.map((doc, idx) => ({idx, doc, s: ...}))\<close>.\<close>

definition scored :: "PathDoc list \<Rightarrow> string \<Rightarrow> Candidate list" where
  "scored index q =
     map (\<lambda>(i, d). \<lparr>idx = i, doc = d, s = prefilter_score d q\<rparr>) (enumerate 0 index)"

text \<open>The body of \<^verbatim>\<open>topPathCandidates\<close> after the index is loaded.\<close>

definition rank_index :: "PathDoc list \<Rightarrow> string \<Rightarrow> int \<Rightarrow> Candidate list" where
  "rank_index index q k =
     (let ranked = sort_desc (scored index q)
      in slice0 (min k (int (length ranked))) ranked)"

section \<open>JSON values and the coercions of JavaScript\<close>

text \<open>
  A JavaScript number as far as the handler looks at it: \<open>Integral n\<close> is a number for
  which \<^verbatim>\<open>Number.isInteger\<close> holds, with its value (\<open>-0\<close> and \<open>0\<close> are the same key of a
  \<^verbatim>\<open>Set\<close>); \<open>NonIntegral\<close> stands for every other number (a fraction, NaN, an infinity).
\<close>

datatype number = Integral int | NonIntegral

text \<open>
  What \<^verbatim>\<open>JSON.parse\<close> returns. \<open>JObj\<close> lists the members in the order of the text; of a
  repeated key the last member counts. \<^verbatim>\<open>undefined\<close> is \<open>None\<close> of \<open>json option\<close>.
\<close>

datatype json =
  JNull
| JBool bool
| JNum number
| JStr string
| JArr "json list"
| JObj "(string \<times> json) list"

text \<open>What the handler's code can throw.\<close>

datatype error = TypeError | SourceUnreadable | CompletionFailed

record Row =
  Path :: "string option"
  Content :: "string option"

type_synonym message = "string \<times> string"

text \<open>
  Everything the module takes from outside. \<open>apiKey\<close> is \<^verbatim>\<open>process.env.OPENAI_API_KEY\<close>;
  \<open>source\<close> is what \<^verbatim>\<open>readFileSync\<close> and csv-parse give for \<^verbatim>\<open>Meta.csv\<close> (\<open>None\<close> when either
  throws); \<open>JSON_parse\<close> is \<^verbatim>\<open>JSON.parse\<close> (\<open>None\<close> when it throws); \<open>StringToNumber\<close> is
  \<^verbatim>\<open>Number\<close> on a string; \<open>ToString\<close> is the conversion of a value that is neither a string
  nor null to a string (it throws for an object whose own \<^verbatim>\<open>toString\<close> member hides the
  inherited method); the two completions are the calls of
  \<^verbatim>\<open>client.chat.completions.create\<close>, returning \<^verbatim>\<open>choices[0]?.message?.content\<close>. The three
  texts hold characters beyond Latin-1 and are taken as they are.
\<close>

record env =
  apiKey :: "string option"
  source :: "Row list option"
  JSON_parse :: "string \<Rightarrow> json option"
  StringToNumber :: "string \<Rightarrow> number"
  ToString :: "json \<Rightarrow> error + string"
  selector_completion :: "message list \<Rightarrow> error + string option"
  answer_completion :: "message list \<Rightarrow> error + string option"
  SYSTEM_SELECTOR :: string
  SYSTEM_ANSWER :: string
  KEY_MISSING_ADVICE :: string

text \<open>
  \<^verbatim>\<open>v.k\<close> for the member names the handler reads (\<^verbatim>\<open>selected_indices\<close>, \<^verbatim>\<open>userScenario\<close>),
  which no prototype defines: reading a member of \<^verbatim>\<open>null\<close> throws, and a value that is not
  an object has no such member.
\<close>

definition get_member :: "json \<Rightarrow> string \<Rightarrow> error + json option" where
  "get_member v k =
     (case v of
        JNull \<Rightarrow> Inl TypeError
      | JObj kvs \<Rightarrow> Inr (map_of (rev kvs) k)
      | _ \<Rightarrow> Inr None)"

text \<open>\<^verbatim>\<open>v?.k\<close>: as \<^verbatim>\<open>v.k\<close>, but \<^verbatim>\<open>undefined\<close> on \<^verbatim>\<open>null\<close>.\<close>

definition get_member_opt :: "json \<Rightarrow> string \<Rightarrow> json option" where
  "get_member_opt v k = (case get_member v k of Inl e \<Rightarrow> None | Inr r \<Rightarrow> r)"

text \<open>
  \<^verbatim>\<open>Number(x)\<close> on a parsed JSON value. An array goes through its string; a plain object
  gives NaN, unless an own member \<^verbatim>\<open>toString\<close> (never callable in parsed JSON) hides
  \<^verbatim>\<open>Object.prototype.toString\<close>: then the conversion to a primitive throws.
\<close>

fun Number_js :: "env \<Rightarrow> json \<Rightarrow> error + number" where
  "Number_js E (JNum n) = Inr n"
| "Number_js E JNull = Inr (Integral 0)"
| "Number_js E (JBool b) = Inr (Integral (if b then 1 else 0))"
| "Number_js E (JStr str) = Inr (StringToNumber E str)"
| "Number_js E (JArr xs) =
     (case ToString E (JArr xs) of Inl e \<Rightarrow> Inl e | Inr str \<Rightarrow> Inr (StringToNumber E str))"
| "Number_js E (JObj kvs) =
     (if map_of kvs ''toString'' \<noteq> None then Inl TypeError else Inr NonIntegral)"

section \<open>Loading and indexing the rows\<close>

text \<open>
  The module variable \<^verbatim>\<open>PATH_INDEX\<close>, and a counter of the calls of \<^verbatim>\<open>readFileSync\<close>
  (not in the source: it makes reading the file observable).
\<close>

record state =
  PATH_INDEX :: "PathDoc list option"
  reads :: nat

text \<open>\<^verbatim>\<open>x || ""\<close> on a column that may be missing.\<close>

definition or_empty :: "string option \<Rightarrow> string" where
  "or_empty x = (case x of None \<Rightarrow> [] | Some str \<Rightarrow> str)"

text \<open>
  The grouping loop. The \<^verbatim>\<open>Map\<close> is an association list in insertion order;
  \<^verbatim>\<open>map.set\<close> of a new key appends, of an old key replaces in place
  (\<^const>\<open>AList.update\<close>). \<^verbatim>\<open>map.get(path)!.push(content)\<close> throws on \<^verbatim>\<open>undefined\<close>.
\<close>

fun group_rows :: "(string \<times> string list) list \<Rightarrow> Row list \<Rightarrow> error + (string \<times> string list) list" where
  "group_rows m [] = Inr m"
| "group_rows m (r # rs) =
     (let p = trim (or_empty (Path r)); c = trim (or_empty (Content r))
      in if p = [] \<or> c = [] then group_rows m rs
         else let m1 = (if map_of m p \<noteq> None then m else AList.update p [] m)
              in case map_of m1 p of
                   None \<Rightarrow> Inl TypeError
                 | Some cs \<Rightarrow> group_rows (AList.update p (cs @ [c]) m1) rs)"

definition build_index :: "(string \<times> string list) list \<Rightarrow> PathDoc list" where
  "build_index m =
     map (\<lambda>(p, cs). \<lparr>path = p, contents = cs, preview = slice_to 500 (join '' '' cs)\<rparr>) m"

definition loadPathIndex :: "env \<Rightarrow> state \<Rightarrow> (error + PathDoc list) \<times> state" where
  "loadPathIndex E st =
     (case PATH_INDEX st of
        Some index \<Rightarrow> (Inr index, st)
      | None \<Rightarrow>
          (let st1 = st\<lparr>reads := reads st + 1\<rparr>
           in case source E of
                None \<Rightarrow> (Inl SourceUnreadable, st1)
              | Some rows \<Rightarrow>
                  (case group_rows [] rows of
                     Inl e \<Rightarrow> (Inl e, st1)
                   | Inr m \<Rightarrow> (Inr (build_index m), st1\<lparr>PATH_INDEX := Some (build_index m)\<rparr>))))"

definition topPathCandidates :: "env \<Rightarrow> state \<Rightarrow> string \<Rightarrow> int \<Rightarrow> (error + Candidate list) \<times> state" where
  "topPathCandidates E st q k =
     (case loadPathIndex E st of
        (Inl e, st1) \<Rightarrow> (Inl e, st1)
      | (Inr index, st1) \<Rightarrow> (Inr (rank_index index q k), st1))"

section \<open>Selection\<close>

text \<open>The loop of \<^verbatim>\<open>toNumberArray\<close>, \<open>out\<close> being the array built so far.\<close>

fun toNumberArray_loop :: "env \<Rightarrow> json list \<Rightarrow> int list \<Rightarrow> error + int list" where
  "toNumberArray_loop E [] out = Inr out"
| "toNumberArray_loop E (x # xs) out =
     (case Number_js E x of
        Inl e \<Rightarrow> Inl e
      | Inr (Integral n) \<Rightarrow> toNumberArray_loop E xs (out @ [n])
      | Inr NonIntegral \<Rightarrow> toNumberArray_loop E xs out)"

definition toNumberArray :: "env \<Rightarrow> json option \<Rightarrow> error + int list" where
  "toNumberArray E v =
     (case v of Some (JArr xs) \<Rightarrow> toNumberArray_loop E xs [] | _ \<Rightarrow> Inr [])"

text \<open>\<^verbatim>\<open>Array.from(new Set(xs))\<close>: the first occurrence of each value, in order.\<close>

fun set_order :: "'a list \<Rightarrow> 'a list \<Rightarrow> 'a list" where
  "set_order seen [] = []"
| "set_order seen (x # xs) =
     (if x \<in> set seen then set_order seen xs else x # set_order (x # seen) xs)"

definition chosenIdxes :: "nat \<Rightarrow> int list \<Rightarrow> int list" where
  "chosenIdxes len nums =
     (let selected = filter (\<lambda>n. 1 \<le> n \<and> n \<le> int len) nums;
          unique = take MAX_SELECTED (set_order [] selected)
      in if length unique > 0 then unique else take (min 3 len) [1, 2, 3])"

text \<open>
  The loop that pulls the documents: \<open>picked\<close> and \<open>seen\<close> are \<^verbatim>\<open>pickedDocs\<close> and the set
  of paths so far. \<^verbatim>\<open>ranked[oneBased - 1]\<close> out of range is \<^verbatim>\<open>undefined\<close>, and taking
  \<^verbatim>\<open>doc\<close> out of it throws.
\<close>

fun pick_loop :: "Candidate list \<Rightarrow> PathDoc list \<Rightarrow> string list \<Rightarrow> int list \<Rightarrow> error + PathDoc list" where
  "pick_loop ranked picked seen [] = Inr picked"
| "pick_loop ranked picked seen (oneBased # rest) =
     (if oneBased - 1 < 0 \<or> int (length ranked) \<le> oneBased - 1 then Inl TypeError
      else let d = doc (ranked ! nat (oneBased - 1));
               picked1 = (if path d \<notin> set seen then picked @ [d] else picked);
               seen1 = (if path d \<notin> set seen then path d # seen else seen)
           in if length picked1 \<ge> MAX_SELECTED then Inr picked1
              else pick_loop ranked picked1 seen1 rest)"

text \<open>\<^verbatim>\<open>selector.choices[0]?.message?.content || "{}"\<close>: the empty string is falsy too.\<close>

definition raw_content :: "string option \<Rightarrow> string" where
  "raw_content content =
     (case content of None \<Rightarrow> ''{}'' | Some c \<Rightarrow> if c = [] then ''{}'' else c)"

text \<open>The \<^verbatim>\<open>try\<close> block: \<^verbatim>\<open>payload\<close> is \<^verbatim>\<open>{}\<close> when \<^verbatim>\<open>JSON.parse\<close> throws.\<close>

definition parse_payload :: "env \<Rightarrow> string option \<Rightarrow> json" where
  "parse_payload E content =
     (case JSON_parse E (raw_content content) of None \<Rightarrow> JObj [] | Some j \<Rightarrow> j)"

text \<open>Lines 231 to 259 of the handler: from the selector's reply to \<^verbatim>\<open>pickedDocs\<close>.\<close>

definition select_docs :: "env \<Rightarrow> Candidate list \<Rightarrow> string option \<Rightarrow> error + PathDoc list" where
  "select_docs E ranked content =
     (case get_member (parse_payload E content) ''selected_indices'' of
        Inl e \<Rightarrow> Inl e
      | Inr v \<Rightarrow>
          (case toNumberArray E v of
             Inl e \<Rightarrow> Inl e
           | Inr nums \<Rightarrow> pick_loop ranked [] [] (chosenIdxes (length ranked) nums)))"

section \<open>Prompts\<close>

abbreviation NL :: char where
  "NL \<equiv> CHR 0x0A"

text \<open>A small positive integer in a template literal: its decimal digits.\<close>

definition digit_char :: "nat \<Rightarrow> char" where
  "digit_char n = ''0123456789'' ! n"

fun show_nat :: "nat \<Rightarrow> string" where
  "show_nat n =
     (if n < 10 then [digit_char n] else show_nat (n div 10) @ [digit_char (n mod 10)])"

declare show_nat.simps [simp del]

text \<open>
  The handler hands over \<^verbatim>\<open>ranked\<close> without the scores; the prompt reads the documents
  only.
\<close>

definition buildSelectorPrompt :: "env \<Rightarrow> string \<Rightarrow> Candidate list \<Rightarrow> message list" where
  "buildSelectorPrompt E question cands =
     (let listing =
            join [NL, NL]
              (map (\<lambda>(i, c). ''#'' @ show_nat (i + 1) @ [NL] @ ''path: '' @ path (doc c) @ [NL]
                      @ ''preview: '' @ preview (doc c))
                 (enumerate 0 cands))
      in [(''system'', SYSTEM_SELECTOR E),
          (''user'', ''QUESTION: '' @ question @ [NL, NL] @ ''CANDIDATE PATHS:'' @ [NL] @ listing)])"

definition buildAnswerPrompt :: "env \<Rightarrow> string \<Rightarrow> PathDoc list \<Rightarrow> message list" where
  "buildAnswerPrompt E question pickedDocs =
     (let ctxBlocks = map (\<lambda>d. ''['' @ path d @ '']'' @ [NL] @ join [NL, NL] (contents d)) pickedDocs;
          ctx = join [NL, NL] ctxBlocks
      in [(''system'', SYSTEM_ANSWER E),
          (''user'', ''Question: '' @ question @ [NL, NL] @ ''Context:'' @ [NL] @ ctx)])"

section \<open>The route\<close>

record response =
  status :: nat
  advice :: string

definition PROVIDE_QUESTION :: string where
  "PROVIDE_QUESTION = ''Please provide a question.''"

definition NO_CONTENT :: string where
  "NO_CONTENT =
     ''No content available yet. Ensure public/data/meta.csv exists with Path and Content rows.''"

definition SERVER_ERROR :: string where
  "SERVER_ERROR = ''Server error while generating answer. Check logs & environment variables.''"

text \<open>\<^verbatim>\<open>answerResp.choices[0]?.message?.content?.trim() || ""\<close>.\<close>

definition answerText :: "string option \<Rightarrow> string" where
  "answerText content = (case content of None \<Rightarrow> [] | Some c \<Rightarrow> trim c)"

text \<open>Step 5: the numbered, bold list of the picked paths, under the answer.\<close>

definition sources_block :: "PathDoc list \<Rightarrow> string" where
  "sources_block pickedDocs =
     join [NL] (map (\<lambda>(i, d). show_nat (i + 1) @ ''. **'' @ path d @ ''**'') (enumerate 0 pickedDocs))"

definition make_advice :: "string \<Rightarrow> PathDoc list \<Rightarrow> string" where
  "make_advice answer pickedDocs = answer @ [NL, NL] @ ''Sources:'' @ [NL] @ sources_block pickedDocs"

text \<open>
  Lines 198 to 200: \<^verbatim>\<open>req.json().catch(() => ({}))\<close>,
  \<^verbatim>\<open>(body?.userScenario ?? "").toString()\<close> and
  \<^verbatim>\<open>userScenario.slice(0, MAX_QUESTION_LEN).trim()\<close>.
\<close>

definition request_body :: "env \<Rightarrow> string \<Rightarrow> json" where
  "request_body E body_text = (case JSON_parse E body_text of None \<Rightarrow> JObj [] | Some j \<Rightarrow> j)"

definition userScenario_of :: "env \<Rightarrow> json \<Rightarrow> error + string" where
  "userScenario_of E body =
     (case get_member_opt body ''userScenario'' of
        None \<Rightarrow> Inr []
      | Some JNull \<Rightarrow> Inr []
      | Some (JStr str) \<Rightarrow> Inr str
      | Some v \<Rightarrow> ToString E v)"

definition question_of :: "string \<Rightarrow> string" where
  "question_of userScenario = trim (slice_to MAX_QUESTION_LEN userScenario)"

text \<open>Steps 1 to 5 of the handler, on a non-empty question.\<close>

definition pipeline :: "env \<Rightarrow> state \<Rightarrow> string \<Rightarrow> (error + response) \<times> state" where
  "pipeline E st question =
     (case topPathCandidates E st question PREFILTER_TOP_K of
        (Inl e, st1) \<Rightarrow> (Inl e, st1)
      | (Inr ranked, st1) \<Rightarrow>
          if length ranked = 0 then (Inr \<lparr>status = 200, advice = NO_CONTENT\<rparr>, st1)
          else
            (case selector_completion E (buildSelectorPrompt E question ranked) of
               Inl e \<Rightarrow> (Inl e, st1)
             | Inr content \<Rightarrow>
                 (case select_docs E ranked content of
                    Inl e \<Rightarrow> (Inl e, st1)
                  | Inr pickedDocs \<Rightarrow>
                      (case answer_completion E (buildAnswerPrompt E question pickedDocs) of
                         Inl e \<Rightarrow> (Inl e, st1)
                       | Inr answer \<Rightarrow>
                           (Inr \<lparr>status = 200,
                                  advice = make_advice (answerText answer) pickedDocs\<rparr>, st1)))))"

text \<open>
  \<^verbatim>\<open>POST\<close>, on the text of the request's body. Whatever is thrown inside is caught at
  the end and answered with status 500.
\<close>

definition POST :: "env \<Rightarrow> state \<Rightarrow> string \<Rightarrow> response \<times> state" where
  "POST E st body_text =
     (if apiKey E = None \<or> apiKey E = Some [] then
        (\<lparr>status = 500, advice = KEY_MISSING_ADVICE E\<rparr>, st)
      else
        (case userScenario_of E (request_body E body_text) of
           Inl e \<Rightarrow> (\<lparr>status = 500, advice = SERVER_ERROR\<rparr>, st)
         | Inr userScenario \<Rightarrow>
             (let question = question_of userScenario
              in if question = [] then (\<lparr>status = 400, advice = PROVIDE_QUESTION\<rparr>, st)
                 else
                   (case pipeline E st question of
                      (Inl e, st1) \<Rightarrow> (\<lparr>status = 500, advice = SERVER_ERROR\<rparr>, st1)
                    | (Inr r, st1) \<Rightarrow> (r, st1)))))"

section \<open>Notions used to state the properties\<close>

text \<open>
  The order of the ranking: a higher score first, and of two equal scores the one
  earlier in the index.
\<close>

definition ranks_before :: "Candidate \<Rightarrow> Candidate \<Rightarrow> bool" where
  "ranks_before a b = (s b < s a \<or> (s a = s b \<and> idx a < idx b))"

text \<open>
  The score as the specification words it: each hit count is over the distinct
  tokens of the query.
\<close>

definition distinct_hits :: "string \<Rightarrow> string \<Rightarrow> nat" where
  "distinct_hits hay q =
     length (remdups (filter (\<lambda>t. str_includes (toLowerCase hay) t) (query_terms q)))"

definition spec_score :: "PathDoc \<Rightarrow> string \<Rightarrow> nat" where
  "spec_score d q = 2 * distinct_hits (path d) q + distinct_hits (preview d) q"

text \<open>The question as the specification words it: trimmed first, then truncated.\<close>

definition spec_question :: "string \<Rightarrow> string" where
  "spec_question userScenario = slice_to MAX_QUESTION_LEN (trim userScenario)"

text \<open>What the grouping loop reads off a row, and the rows it keeps.\<close>

definition row_path :: "Row \<Rightarrow> string" where
  "row_path r = trim (or_empty (Path r))"

definition row_content :: "Row \<Rightarrow> string" where
  "row_content r = trim (or_empty (Content r))"

definition usable :: "Row \<Rightarrow> bool" where
  "usable r = (row_path r \<noteq> [] \<and> row_content r \<noteq> [])"

text \<open>The fragments of a path: the contents of its kept rows, in row order.\<close>

definition fragments :: "string \<Rightarrow> Row list \<Rightarrow> string list" where
  "fragments p rows = map row_content (filter (\<lambda>r. usable r \<and> row_path r = p) rows)"

text \<open>
  The invariant of the module variable: a cached index has pairwise distinct paths.
  It holds at start (\<open>PATH_INDEX = None\<close>) and \<open>loadPathIndex\<close> keeps it.
\<close>

definition state_ok :: "state \<Rightarrow> bool" where
  "state_ok st = (case PATH_INDEX st of None \<Rightarrow> True | Some index \<Rightarrow> distinct (map path index))"

subsection \<open>A concrete environment for the examples\<close>

definition example_rows :: "Row list" where
  "example_rows =
     [\<lparr>Path = Some ''Item 1 Business '', Content = Some ''the company sells hardware''\<rparr>,
      \<lparr>Path = Some ''Item 7 MD&A'', Content = Some ''revenue grew''\<rparr>,
      \<lparr>Path = Some ''Item 9'', Content = Some ''  ''\<rparr>,
      \<lparr>Path = None, Content = Some ''orphan''\<rparr>,
      \<lparr>Path = Some ''Item 7 MD&A'', Content = Some '' due to hardware demand''\<rparr>]"

definition example_index :: "PathDoc list" where
  "example_index =
     [\<lparr>path = ''Item 1 Business'', contents = [''the company sells hardware''],
       preview = ''the company sells hardware''\<rparr>,
      \<lparr>path = ''Item 7 MD&A'', contents = [''revenue grew'', ''due to hardware demand''],
       preview = ''revenue grew due to hardware demand''\<rparr>]"

text \<open>
  \<^verbatim>\<open>JSON.parse\<close> on the texts the examples use: five JSON texts with their values, and
  \<^verbatim>\<open>oops\<close>, which is not JSON. The examples apply it to no other text.
\<close>

definition example_parse :: "string \<Rightarrow> json option" where
  "example_parse txt =
     (if txt = ''null'' then Some JNull
      else if txt = ''{}'' then Some (JObj [])
      else if txt = ''{\"selected_indices\":[2,1,2,9]}'' then
        Some (JObj [(''selected_indices'',
                     JArr [JNum (Integral 2), JNum (Integral 1), JNum (Integral 2),
                           JNum (Integral 9)])])
      else if txt = ''{\"selected_indices\":[{\"toString\":1}]}'' then
        Some (JObj [(''selected_indices'', JArr [JObj [(''toString'', JNum (Integral 1))]])])
      else if txt = ''{\"userScenario\":\"hardware revenue\"}'' then
        Some (JObj [(''userScenario'', JStr ''hardware revenue'')])
      else None)"

text \<open>
  The environment of the examples, by the selector's reply. The examples convert no
  string to a number and no value to a string, so the two conversions are never
  applied.
\<close>

definition example_env :: "string option \<Rightarrow> env" where
  "example_env reply =
     \<lparr>apiKey = Some ''sk-example'',
      source = Some example_rows,
      JSON_parse = example_parse,
      StringToNumber = (\<lambda>str. NonIntegral),
      ToString = (\<lambda>v. Inr ''[object Object]''),
      selector_completion = (\<lambda>msgs. Inr reply),
      answer_completion = (\<lambda>msgs. Inr (Some '' Hardware demand drove revenue. '')),
      SYSTEM_SELECTOR = ''Pick the most relevant paths.'',
      SYSTEM_ANSWER = ''Use only the provided Context.'',
      KEY_MISSING_ADVICE = ''OPENAI_API_KEY is missing.''\<rparr>"

definition example_state :: state where
  "example_state = \<lparr>PATH_INDEX = None, reads = 0\<rparr>"

section \<open>Scoring\<close>

lemma str_includes_sublist: "str_includes hay t \<longleftrightarrow> sublist t hay"
  by (induction hay) (simp_all add: sublist_Cons_right)

lemma score_loop_count:
  "score_loop low ts acc = acc + length (filter (str_includes low) ts)"
  by (induction ts arbitrary: acc) simp_all

lemma score_count:
  "score hay q = length (filter (\<lambda>t. sublist t (toLowerCase hay)) (query_terms q))"
  by (simp add: score_def score_loop_count str_includes_sublist[abs_def])

text \<open>
  C2, as the code has it. On the query \<open>hardware revenue\<close> the document
  \<open>Item 1 Business\<close> / \<open>the company sells hardware\<close> scores 1: no token occurs in its path,
  and one (\<open>hardware\<close>) occurs in its preview. The document \<open>Item 7 MD&A\<close> /
  \<open>revenue grew due to hardware demand\<close> scores 2: no token in the path, both in the
  preview. So the second document is ranked first.
\<close>

theorem scoring_example:
  "score ''Item 1 Business'' ''hardware revenue'' = 0
   \<and> score ''the company sells hardware'' ''hardware revenue'' = 1
   \<and> prefilter_score \<lparr>path = ''Item 1 Business'', contents = [],
         preview = ''the company sells hardware''\<rparr> ''hardware revenue'' = 1
   \<and> score ''Item 7 MD&A'' ''hardware revenue'' = 0
   \<and> score ''revenue grew due to hardware demand'' ''hardware revenue'' = 2
   \<and> prefilter_score \<lparr>path = ''Item 7 MD&A'', contents = [],
         preview = ''revenue grew due to hardware demand''\<rparr> ''hardware revenue'' = 2
   \<and> map (\<lambda>c. path (doc c))
         (rank_index
            [\<lparr>path = ''Item 1 Business'', contents = [], preview = ''the company sells hardware''\<rparr>,
             \<lparr>path = ''Item 7 MD&A'', contents = [],
               preview = ''revenue grew due to hardware demand''\<rparr>]
            ''hardware revenue'' PREFILTER_TOP_K)
       = [''Item 7 MD&A'', ''Item 1 Business'']"
  by code_simp

text \<open>
  C2 as stated fails: the first document does not score 3, and it is not ranked
  first.
\<close>

theorem scoring_example_counterexample:
  "\<not> (prefilter_score \<lparr>path = ''Item 1 Business'', contents = [],
          preview = ''the company sells hardware''\<rparr> ''hardware revenue'' = 3
      \<and> prefilter_score \<lparr>path = ''Item 7 MD&A'', contents = [],
          preview = ''revenue grew due to hardware demand''\<rparr> ''hardware revenue'' = 2
      \<and> path (doc (hd (rank_index
            [\<lparr>path = ''Item 1 Business'', contents = [], preview = ''the company sells hardware''\<rparr>,
             \<lparr>path = ''Item 7 MD&A'', contents = [],
               preview = ''revenue grew due to hardware demand''\<rparr>]
            ''hardware revenue'' PREFILTER_TOP_K))) = ''Item 1 Business'')"
  by code_simp

text \<open>
  C3, as the code has it. The prefilter score is twice the path hits plus the preview
  hits, a hit count being the number of the query's tokens, each occurrence in the
  query counted, that occur as a substring of the lower-cased text. When the query's
  tokens are pairwise distinct this is the score of the specification.
\<close>

theorem prefilter_score_counts_occurrences:
  "prefilter_score d q =
     2 * length (filter (\<lambda>t. sublist t (toLowerCase (path d))) (query_terms q))
       + length (filter (\<lambda>t. sublist t (toLowerCase (preview d))) (query_terms q))
   \<and> (distinct (query_terms q) \<longrightarrow> prefilter_score d q = spec_score d q)"
proof -
  have "distinct (query_terms q) \<Longrightarrow> distinct_hits h q = score h q" for h
    by (simp add: distinct_hits_def score_def score_loop_count distinct_remdups_id)
  then show ?thesis
    by (simp add: prefilter_score_def spec_score_def score_count)
qed

theorem prefilter_score_counts_occurrences_witness:
  "distinct (query_terms ''hardware revenue'')
   \<and> prefilter_score \<lparr>path = ''Item 7 MD&A'', contents = [],
         preview = ''revenue grew due to hardware demand''\<rparr> ''hardware revenue''
       = spec_score \<lparr>path = ''Item 7 MD&A'', contents = [],
         preview = ''revenue grew due to hardware demand''\<rparr> ''hardware revenue''"
proof -
  have h: "distinct (query_terms ''hardware revenue'')"
    by code_simp
  with prefilter_score_counts_occurrences
         [of "\<lparr>path = ''Item 7 MD&A'', contents = [],
               preview = ''revenue grew due to hardware demand''\<rparr>" "''hardware revenue''"]
  show ?thesis by blast
qed

text \<open>
  C3 as stated fails: a token repeated in the query counts each time. The query
  \<open>a a\<close> against path \<open>a\<close> and preview \<open>a\<close> scores 6, where the distinct tokens give 3.
\<close>

theorem prefilter_score_repeated_token_counterexample:
  "prefilter_score \<lparr>path = ''a'', contents = [], preview = ''a''\<rparr> ''a a'' = 6
   \<and> spec_score \<lparr>path = ''a'', contents = [], preview = ''a''\<rparr> ''a a'' = 3"
  by code_simp

section \<open>Ranking\<close>

lemma set_insert_desc: "set (insert_desc x ys) = insert x (set ys)"
  by (induction ys) auto

lemma mset_insert_desc: "mset (insert_desc x ys) = add_mset x (mset ys)"
  by (induction ys) simp_all

lemma mset_sort_desc: "mset (sort_desc xs) = mset xs"
  by (induction xs) (simp_all add: sort_desc_def mset_insert_desc)

lemma sorted_insert_desc:
  "sorted_wrt ranks_before ys \<Longrightarrow> \<forall>y\<in>set ys. idx x < idx y \<Longrightarrow>
   sorted_wrt ranks_before (insert_desc x ys)"
proof (induction ys)
  case Nil
  then show ?case by simp
next
  case (Cons y ys)
  show ?case
  proof (cases "s x < s y")
    case True
    with Cons show ?thesis
      by (auto simp: set_insert_desc ranks_before_def)
  next
    case False
    with Cons show ?thesis
      by (fastforce simp: ranks_before_def)
  qed
qed

lemma sorted_sort_desc:
  "sorted_wrt (\<lambda>a b. idx a < idx b) xs \<Longrightarrow> sorted_wrt ranks_before (sort_desc xs)"
proof (induction xs)
  case Nil
  then show ?case by (simp add: sort_desc_def)
next
  case (Cons x xs)
  have "set (sort_desc xs) = set xs"
    using mset_sort_desc[of xs] by (metis set_mset_mset)
  with Cons show ?case
    by (simp add: sort_desc_def sorted_insert_desc)
qed

lemma scored_nth:
  "i < length index \<Longrightarrow> scored index q ! i = \<lparr>idx = i, doc = index ! i, s = prefilter_score (index ! i) q\<rparr>"
  by (simp add: scored_def nth_enumerate_eq)

lemma length_scored: "length (scored index q) = length index"
  by (simp add: scored_def)

lemma scored_idx_sorted: "sorted_wrt (\<lambda>a b. idx a < idx b) (scored index q)"
  by (simp add: sorted_wrt_iff_nth_less length_scored scored_nth)

lemma scored_elem:
  "c \<in> set (scored index q) \<Longrightarrow>
   idx c < length index \<and> doc c = index ! idx c \<and> s c = prefilter_score (doc c) q"
  by (auto simp: in_set_conv_nth length_scored scored_nth)

lemma set_slice0: "set (slice0 e xs) \<subseteq> set xs"
  by (auto simp: slice0_def dest: in_set_takeD)

lemma sorted_slice0: "sorted_wrt P xs \<Longrightarrow> sorted_wrt P (slice0 e xs)"
  by (simp add: slice0_def sorted_wrt_take)

lemma length_rank_index: "0 \<le> k \<Longrightarrow> length (rank_index index q k) = min (nat k) (length index)"
proof -
  assume "0 \<le> k"
  have "length (sort_desc (scored index q)) = length index"
    using mset_sort_desc[of "scored index q"] by (metis length_scored size_mset)
  with \<open>0 \<le> k\<close> show ?thesis
    by (auto simp: rank_index_def slice0_def Let_def min_def)
qed

lemma rank_index_sorted: "sorted_wrt ranks_before (rank_index index q k)"
  by (simp add: rank_index_def Let_def sorted_slice0 sorted_sort_desc scored_idx_sorted)

lemma rank_index_elem:
  "c \<in> set (rank_index index q k) \<Longrightarrow>
   idx c < length index \<and> doc c = index ! idx c \<and> s c = prefilter_score (doc c) q"
proof -
  assume "c \<in> set (rank_index index q k)"
  then have "c \<in> set (sort_desc (scored index q))"
    using set_slice0 by (fastforce simp: rank_index_def Let_def)
  then have "c \<in> set (scored index q)"
    using mset_sort_desc[of "scored index q"] by (metis set_mset_mset)
  then show ?thesis by (rule scored_elem)
qed

text \<open>
  C6. For every index, query and bound \<open>k\<close>, the candidates of the prefilter are in
  non-increasing order of score; of two candidates with the same score the one earlier
  in the index comes first; each candidate carries its position in the index, the
  document at that position and that document's score; and for a bound \<open>k \<ge> 0\<close>
  (the handler passes 50) there are at most \<open>k\<close> of them.
\<close>

theorem rank_index_sorted_stable_bounded:
  "sorted_wrt (\<lambda>a b. s b \<le> s a) (rank_index index q k)
   \<and> sorted_wrt (\<lambda>a b. s a = s b \<longrightarrow> idx a < idx b) (rank_index index q k)
   \<and> (\<forall>c\<in>set (rank_index index q k).
         idx c < length index \<and> doc c = index ! idx c \<and> s c = prefilter_score (doc c) q)
   \<and> (0 \<le> k \<longrightarrow> int (length (rank_index index q k)) \<le> k)"
proof -
  have 1: "sorted_wrt (\<lambda>a b. s b \<le> s a) (rank_index index q k)"
    by (rule sorted_wrt_mono_rel[OF _ rank_index_sorted]) (auto simp: ranks_before_def)
  have 2: "sorted_wrt (\<lambda>a b. s a = s b \<longrightarrow> idx a < idx b) (rank_index index q k)"
    by (rule sorted_wrt_mono_rel[OF _ rank_index_sorted]) (auto simp: ranks_before_def)
  have 3: "0 \<le> k \<longrightarrow> int (length (rank_index index q k)) \<le> k"
    by (auto simp: length_rank_index)
  from 1 2 3 rank_index_elem show ?thesis by blast
qed

theorem rank_index_sorted_stable_bounded_witness:
  "(0::int) \<le> 2
   \<and> int (length (rank_index (example_index @ example_index) ''hardware'' 2)) \<le> 2
   \<and> sorted_wrt (\<lambda>a b. s b \<le> s a) (rank_index (example_index @ example_index) ''hardware'' 2)
   \<and> map idx (rank_index (example_index @ example_index) ''hardware'' 2) = [0, 1]
   \<and> map s (rank_index (example_index @ example_index) ''hardware'' 2) = [1, 1]"
proof -
  have "map idx (rank_index (example_index @ example_index) ''hardware'' 2) = [0, 1]"
    and "map s (rank_index (example_index @ example_index) ''hardware'' 2) = [1, 1]"
    by code_simp+
  with rank_index_sorted_stable_bounded [of "example_index @ example_index" "''hardware''" 2]
  show ?thesis by simp
qed

section \<open>The document index\<close>

lemma set_order_cong: "set seen = set seen' \<Longrightarrow> set_order seen xs = set_order seen' xs"
proof (induction xs arbitrary: seen seen')
  case Nil
  show ?case by simp
next
  case (Cons x xs)
  have "set_order (x # seen) xs = set_order (x # seen') xs"
    by (rule Cons.IH) (simp add: Cons.prems)
  moreover have "set_order seen xs = set_order seen' xs"
    by (rule Cons.IH[OF Cons.prems])
  ultimately show ?case
    using Cons.prems by simp
qed

lemma set_set_order: "set (set_order seen xs) = set xs - set seen"
  by (induction xs arbitrary: seen) auto

lemma distinct_set_order: "distinct (set_order seen xs)"
  by (induction xs arbitrary: seen) (auto simp: set_set_order)

lemma group_rows_skip: "\<not> usable r \<Longrightarrow> group_rows m (r # rows) = group_rows m rows"
  by (auto simp: usable_def row_path_def row_content_def Let_def)

lemma group_rows_step:
  assumes "usable r"
  shows "group_rows m (r # rows) =
     group_rows (AList.update (row_path r)
        ((case map_of m (row_path r) of None \<Rightarrow> [] | Some cs \<Rightarrow> cs) @ [row_content r])
        (if map_of m (row_path r) \<noteq> None then m else AList.update (row_path r) [] m)) rows"
proof (cases "map_of m (row_path r)")
  case None
  then show ?thesis using assms
    by (simp add: usable_def row_path_def row_content_def Let_def update_conv')
next
  case (Some cs)
  then show ?thesis using assms
    by (simp add: usable_def row_path_def row_content_def Let_def)
qed

lemma group_rows_char:
  "\<exists>m'. group_rows m rows = Inr m'
     \<and> map fst m' = map fst m @ set_order (map fst m) (map row_path (filter usable rows))
     \<and> (\<forall>p. map_of m' p =
           (if fragments p rows = [] then map_of m p
            else Some ((case map_of m p of None \<Rightarrow> [] | Some cs \<Rightarrow> cs) @ fragments p rows)))"
proof (induction rows arbitrary: m)
  case Nil
  then show ?case by (simp add: fragments_def)
next
  case (Cons r rows)
  show ?case
  proof (cases "usable r")
    case False
    have g: "group_rows m (r # rows) = group_rows m rows"
      by (rule group_rows_skip[OF False])
    have f: "filter usable (r # rows) = filter usable rows"
      using False by simp
    have frag: "fragments p (r # rows) = fragments p rows" for p
      using False by (simp add: fragments_def)
    show ?thesis unfolding g f frag by (rule Cons.IH)
  next
    case True
    define p where "p = row_path r"
    define c where "c = row_content r"
    define old where "old = (case map_of m p of None \<Rightarrow> [] | Some cs \<Rightarrow> cs)"
    define m1 where "m1 = (if map_of m p \<noteq> None then m else AList.update p [] m)"
    define m2 where "m2 = AList.update p (old @ [c]) m1"
    have step: "group_rows m (r # rows) = group_rows m2 rows"
      unfolding m2_def m1_def old_def p_def c_def by (rule group_rows_step[OF True])
    have keys2: "map fst m2 = (if p \<in> set (map fst m) then map fst m else map fst m @ [p])"
      by (cases "map_of m p") (auto simp: m2_def m1_def update_keys map_of_eq_None_iff dom_update)
    have map2: "map_of m2 = (map_of m)(p \<mapsto> old @ [c])"
      by (auto simp: m2_def m1_def update_conv')
    from Cons.IH[of m2] obtain m' where IH: "group_rows m2 rows = Inr m'
       \<and> map fst m' = map fst m2 @ set_order (map fst m2) (map row_path (filter usable rows))
       \<and> (\<forall>q. map_of m' q =
           (if fragments q rows = [] then map_of m2 q
            else Some ((case map_of m2 q of None \<Rightarrow> [] | Some cs \<Rightarrow> cs) @ fragments q rows)))" ..
    note m' = conjunct1[OF IH]
    note keys' = conjunct1[OF conjunct2[OF IH]]
    note map' = spec[OF conjunct2[OF conjunct2[OF IH]]]
    have frag: "fragments q (r # rows) = (if q = p then c # fragments q rows else fragments q rows)" for q
      using True by (auto simp: fragments_def p_def c_def)
    have K: "map fst m' = map fst m @ set_order (map fst m) (map row_path (filter usable (r # rows)))"
    proof (cases "p \<in> set (map fst m)")
      case True
      then show ?thesis using keys' keys2 \<open>usable r\<close> by (simp add: p_def)
    next
      case False
      have "set_order (map fst m @ [p]) xs = set_order (p # map fst m) xs" for xs
        by (rule set_order_cong) auto
      then show ?thesis using False keys' keys2 \<open>usable r\<close> by (simp add: p_def)
    qed
    have M: "map_of m' q =
           (if fragments q (r # rows) = [] then map_of m q
            else Some ((case map_of m q of None \<Rightarrow> [] | Some cs \<Rightarrow> cs) @ fragments q (r # rows)))" for q
      by (simp add: map' frag map2 old_def)
    show ?thesis
    proof (intro exI[of _ m'] conjI allI)
      show "group_rows m (r # rows) = Inr m'"
        using step m' by (simp del: group_rows.simps)
      show "map fst m' = map fst m @ set_order (map fst m) (map row_path (filter usable (r # rows)))"
        by (rule K)
      show "map_of m' q =
           (if fragments q (r # rows) = [] then map_of m q
            else Some ((case map_of m q of None \<Rightarrow> [] | Some cs \<Rightarrow> cs) @ fragments q (r # rows)))" for q
        by (rule M)
    qed
  qed
qed


lemma group_rows_usable: "group_rows m rows = group_rows m (filter usable rows)"
proof (induction rows arbitrary: m)
  case Nil
  show ?case by simp
next
  case (Cons r rows)
  show ?case
  proof (cases "usable r")
    case True
    then show ?thesis
      using Cons.IH by (simp add: group_rows_step del: group_rows.simps)
  next
    case False
    then show ?thesis
      using Cons.IH by (simp add: group_rows_skip del: group_rows.simps)
  qed
qed

lemma group_rows_empty:
  "\<exists>m. group_rows [] rows = Inr m
     \<and> map fst m = set_order [] (map row_path (filter usable rows))
     \<and> (\<forall>p. map_of m p = (if fragments p rows = [] then None else Some (fragments p rows)))"
proof -
  define e :: "(string \<times> string list) list" where "e = []"
  from group_rows_char[of e rows] obtain m where IH: "group_rows e rows = Inr m
     \<and> map fst m = map fst e @ set_order (map fst e) (map row_path (filter usable rows))
     \<and> (\<forall>p. map_of m p =
           (if fragments p rows = [] then map_of e p
            else Some ((case map_of e p of None \<Rightarrow> [] | Some cs \<Rightarrow> cs) @ fragments p rows)))" ..
  have 1: "group_rows [] rows = Inr m"
    using conjunct1[OF IH] by (simp add: e_def)
  have 2: "map fst m = set_order [] (map row_path (filter usable rows))"
    using conjunct1[OF conjunct2[OF IH]] by (simp add: e_def)
  have 3: "map_of m p = (if fragments p rows = [] then None else Some (fragments p rows))" for p
    using spec[OF conjunct2[OF conjunct2[OF IH]], of p] by (simp add: e_def)
  show ?thesis
    using 1 2 3 by (intro exI[of _ m] conjI allI)
qed

lemma path_build_index: "map path (build_index m) = map fst m"
  by (induction m) (auto simp: build_index_def)

lemma build_index_elem:
  assumes "distinct (map fst m)" "d \<in> set (build_index m)"
  shows "map_of m (path d) = Some (contents d) \<and> preview d = take 500 (join '' '' (contents d))"
proof -
  from assms(2) obtain p cs where "(p, cs) \<in> set m"
    and d: "d = \<lparr>path = p, contents = cs, preview = slice_to 500 (join '' '' cs)\<rparr>"
    by (auto simp: build_index_def)
  with assms(1) show ?thesis
    by (simp add: slice_to_def)
qed

lemma loadPathIndex_cached:
  "PATH_INDEX st = Some index \<Longrightarrow> loadPathIndex E st = (Inr index, st)"
  by (simp add: loadPathIndex_def)

text \<open>
  C7. On a fresh module (\<open>PATH_INDEX = None\<close>) and a readable source, the loader reads
  the source once and returns an index that it also caches. The index has one document
  for each distinct trimmed path among the rows whose trimmed path and trimmed content
  are both non-empty, in the order those paths first appear; a row whose trimmed path or
  content is empty adds nothing (the index is the one built from the other rows alone);
  a document's contents are the trimmed contents of its rows in row order, and its
  preview is the first 500 characters of them joined by one space. Every later call
  returns the same index and leaves the state, the read counter included, as it is,
  whatever the source then holds.
\<close>

theorem loadPathIndex_builds_and_caches:
  assumes "PATH_INDEX st = None" and "source E = Some rows"
  shows "\<exists>index st1.
      loadPathIndex E st = (Inr index, st1)
    \<and> st1 = st\<lparr>reads := reads st + 1, PATH_INDEX := Some index\<rparr>
    \<and> map path index = set_order [] (map row_path (filter usable rows))
    \<and> distinct (map path index)
    \<and> set (map path index) = row_path ` {r \<in> set rows. usable r}
    \<and> (\<forall>d\<in>set index.
          contents d = fragments (path d) rows \<and> contents d \<noteq> []
          \<and> preview d = take 500 (join '' '' (contents d)))
    \<and> fst (loadPathIndex (E\<lparr>source := Some (filter usable rows)\<rparr>) st) = Inr index
    \<and> (\<forall>E'. loadPathIndex E' st1 = (Inr index, st1))"
proof -
  from group_rows_empty[of rows] obtain m where G: "group_rows [] rows = Inr m
     \<and> map fst m = set_order [] (map row_path (filter usable rows))
     \<and> (\<forall>p. map_of m p = (if fragments p rows = [] then None else Some (fragments p rows)))" ..
  note m = conjunct1[OF G]
  note keys = conjunct1[OF conjunct2[OF G]]
  note frag = spec[OF conjunct2[OF conjunct2[OF G]]]
  define index where "index = build_index m"
  define st1 where "st1 = st\<lparr>reads := reads st + 1, PATH_INDEX := Some index\<rparr>"
  have dist: "distinct (map fst m)"
    by (simp add: keys distinct_set_order)
  have 1: "loadPathIndex E st = (Inr index, st1)"
    using assms m by (simp add: loadPathIndex_def index_def st1_def Let_def)
  have 3: "map path index = set_order [] (map row_path (filter usable rows))"
    by (simp add: index_def path_build_index keys)
  have 4: "distinct (map path index)"
    by (simp add: 3 distinct_set_order)
  have 5: "set (map path index) = row_path ` {r \<in> set rows. usable r}"
    unfolding 3 by (auto simp: set_set_order)
  have 6: "contents d = fragments (path d) rows \<and> contents d \<noteq> []
          \<and> preview d = take 500 (join '' '' (contents d))" if "d \<in> set index" for d
  proof -
    from build_index_elem[OF dist that[unfolded index_def]]
    have a: "map_of m (path d) = Some (contents d)"
      and b: "preview d = take 500 (join '' '' (contents d))" by simp_all
    from a frag[of "path d"] have "fragments (path d) rows \<noteq> [] \<and> contents d = fragments (path d) rows"
      by (auto split: if_splits)
    with b show ?thesis by simp
  qed
  have 7: "fst (loadPathIndex (E\<lparr>source := Some (filter usable rows)\<rparr>) st) = Inr index"
    using assms(1) m group_rows_usable[of "[]" rows]
    by (simp add: loadPathIndex_def index_def Let_def)
  have 8: "loadPathIndex E' st1 = (Inr index, st1)" for E'
    by (rule loadPathIndex_cached) (simp add: st1_def)
  from 1 3 4 5 6 7 8 show ?thesis
    unfolding st1_def by blast
qed


theorem loadPathIndex_builds_and_caches_witness:
  "PATH_INDEX example_state = None
   \<and> source (example_env None) = Some example_rows
   \<and> loadPathIndex (example_env None) example_state
       = (Inr example_index, \<lparr>PATH_INDEX = Some example_index, reads = 1\<rparr>)
   \<and> distinct (map path example_index)
   \<and> loadPathIndex ((example_env None)\<lparr>source := None\<rparr>)
         \<lparr>PATH_INDEX = Some example_index, reads = 1\<rparr>
       = (Inr example_index, \<lparr>PATH_INDEX = Some example_index, reads = 1\<rparr>)"
proof -
  have h1: "PATH_INDEX example_state = None"
    by (simp add: example_state_def)
  have h2: "source (example_env None) = Some example_rows"
    by (simp add: example_env_def)
  have ev: "loadPathIndex (example_env None) example_state
       = (Inr example_index, \<lparr>PATH_INDEX = Some example_index, reads = 1\<rparr>)"
    by code_simp
  from loadPathIndex_builds_and_caches[OF h1 h2] ev
  have "distinct (map path example_index)
    \<and> (\<forall>E'. loadPathIndex E' \<lparr>PATH_INDEX = Some example_index, reads = 1\<rparr>
          = (Inr example_index, \<lparr>PATH_INDEX = Some example_index, reads = 1\<rparr>))"
    by auto
  with h1 h2 ev show ?thesis by blast
qed

section \<open>Properties of the selection\<close>

lemma fallback_cases:
  "take (min 3 len) [1, 2, 3 :: int] =
     (if len = 0 then [] else if len = 1 then [1] else if len = 2 then [1, 2] else [1, 2, 3])"
  by (cases len rule: nat.exhaust; simp add: min_def)

lemma chosenIdxes_unfold:
  "chosenIdxes len nums =
     (if take MAX_SELECTED (set_order [] (filter (\<lambda>n. 1 \<le> n \<and> n \<le> int len) nums)) \<noteq> []
      then take MAX_SELECTED (set_order [] (filter (\<lambda>n. 1 \<le> n \<and> n \<le> int len) nums))
      else take (min 3 len) [1, 2, 3])"
  unfolding chosenIdxes_def Let_def length_greater_0_conv ..

lemma chosenIdxes_fallback:
  "filter (\<lambda>n. 1 \<le> n \<and> n \<le> int len) nums = [] \<Longrightarrow>
   chosenIdxes len nums = take (min 3 len) [1, 2, 3]"
  by (simp add: chosenIdxes_unfold)

lemma chosenIdxes_range:
  assumes "i \<in> set (chosenIdxes len nums)"
  shows "1 \<le> i \<and> i \<le> int len"
proof (cases "take MAX_SELECTED (set_order [] (filter (\<lambda>n. 1 \<le> n \<and> n \<le> int len) nums)) = []")
  case True
  then have "i \<in> set (take (min 3 len) [1, 2, 3])"
    using assms unfolding chosenIdxes_unfold by simp
  then show ?thesis
    by (auto simp: fallback_cases split: if_splits)
next
  case False
  then have "i \<in> set (take MAX_SELECTED (set_order [] (filter (\<lambda>n. 1 \<le> n \<and> n \<le> int len) nums)))"
    using assms unfolding chosenIdxes_unfold by simp
  then have "i \<in> set (set_order [] (filter (\<lambda>n. 1 \<le> n \<and> n \<le> int len) nums))"
    by (rule in_set_takeD)
  then show ?thesis
    by (simp add: set_set_order)
qed

lemma chosenIdxes_nonempty: "0 < len \<Longrightarrow> chosenIdxes len nums \<noteq> []"
  by (auto simp: chosenIdxes_unfold fallback_cases)

lemma pick_loop_ok:
  assumes "\<forall>i\<in>set todo. 1 \<le> i \<and> i \<le> int (length ranked)"
  shows "\<exists>docs. pick_loop ranked picked seen todo = Inr docs
     \<and> prefix picked docs
     \<and> set docs \<subseteq> set picked \<union> doc ` set ranked
     \<and> (length picked < MAX_SELECTED \<longrightarrow> length docs \<le> MAX_SELECTED)
     \<and> (set seen = path ` set picked \<and> distinct (map path picked) \<longrightarrow> distinct (map path docs))"
  using assms
proof (induction todo arbitrary: picked seen)
  case Nil
  then show ?case by simp
next
  case (Cons i todo)
  define d where "d = doc (ranked ! nat (i - 1))"
  define picked1 where "picked1 = (if path d \<notin> set seen then picked @ [d] else picked)"
  define seen1 where "seen1 = (if path d \<notin> set seen then path d # seen else seen)"
  have rng: "1 \<le> i" "i \<le> int (length ranked)"
    using Cons.prems by simp_all
  then have din: "d \<in> doc ` set ranked"
    by (simp add: d_def)
  have p1: "prefix picked picked1" "set picked1 \<subseteq> set picked \<union> doc ` set ranked"
    "length picked1 \<le> length picked + 1"
    using din by (auto simp: picked1_def)
  have inv: "set seen = path ` set picked \<and> distinct (map path picked) \<Longrightarrow>
      set seen1 = path ` set picked1 \<and> distinct (map path picked1)"
    by (auto simp: picked1_def seen1_def)
  show ?case
  proof (cases "length picked1 \<ge> MAX_SELECTED")
    case True
    have "pick_loop ranked picked seen (i # todo) = Inr picked1"
      using rng True by (simp add: Let_def d_def[symmetric] picked1_def[symmetric])
    with p1 inv True show ?thesis
      by (auto simp: MAX_SELECTED_def)
  next
    case False
    have step: "pick_loop ranked picked seen (i # todo) = pick_loop ranked picked1 seen1 todo"
      using rng False
      by (simp add: Let_def d_def[symmetric] picked1_def[symmetric] seen1_def[symmetric])
    from Cons.IH[of picked1 seen1] Cons.prems
    obtain docs where IH: "pick_loop ranked picked1 seen1 todo = Inr docs
       \<and> prefix picked1 docs
       \<and> set docs \<subseteq> set picked1 \<union> doc ` set ranked
       \<and> (length picked1 < MAX_SELECTED \<longrightarrow> length docs \<le> MAX_SELECTED)
       \<and> (set seen1 = path ` set picked1 \<and> distinct (map path picked1) \<longrightarrow> distinct (map path docs))"
      by auto
    show ?thesis
    proof (intro exI[of _ docs] conjI impI)
      show "pick_loop ranked picked seen (i # todo) = Inr docs"
        using step IH by simp
      show "prefix picked docs"
        using p1(1) IH by (meson prefix_order.trans)
      show "set docs \<subseteq> set picked \<union> doc ` set ranked"
        using p1(2) IH by blast
      show "length docs \<le> MAX_SELECTED"
        using False IH by simp
      show "distinct (map path docs)" if "set seen = path ` set picked \<and> distinct (map path picked)"
        using inv[OF that] IH by simp
    qed
  qed
qed

lemma pick_loop_first:
  assumes "todo \<noteq> []" "\<forall>i\<in>set todo. 1 \<le> i \<and> i \<le> int (length ranked)"
    "pick_loop ranked [] [] todo = Inr docs"
  shows "docs \<noteq> []"
proof -
  obtain i rest where todo: "todo = i # rest"
    using assms(1) by (cases todo) auto
  define d where "d = doc (ranked ! nat (i - 1))"
  have rng: "1 \<le> i" "i \<le> int (length ranked)"
    using assms(2) todo by simp_all
  have "pick_loop ranked [] [] todo = pick_loop ranked [d] [path d] rest"
    using rng by (simp add: todo Let_def d_def MAX_SELECTED_def)
  moreover obtain docs' where "pick_loop ranked [d] [path d] rest = Inr docs'" "prefix [d] docs'"
    using pick_loop_ok[of rest ranked "[d]" "[path d]"] assms(2) todo by auto
  ultimately show ?thesis
    using assms(3) by auto
qed

lemma pick_loop_fallback:
  assumes "distinct (map (\<lambda>c. path (doc c)) ranked)"
  shows "pick_loop ranked [] [] (take (min 3 (length ranked)) [1, 2, 3]) =
         Inr (map doc (take (min 3 (length ranked)) ranked))"
proof (cases ranked)
  case Nil
  then show ?thesis by simp
next
  case (Cons a r1)
  note A = this
  show ?thesis
  proof (cases r1)
    case Nil
    with A show ?thesis by (simp add: MAX_SELECTED_def)
  next
    case (Cons b r2)
    note B = this
    show ?thesis
    proof (cases r2)
      case Nil
      with A B assms show ?thesis by (simp add: MAX_SELECTED_def Let_def)
    next
      case (Cons c r3)
      with A B assms show ?thesis by (auto simp: MAX_SELECTED_def Let_def nth_Cons')
    qed
  qed
qed

lemma pick_loop_chosen:
  "\<exists>docs. pick_loop ranked [] [] (chosenIdxes (length ranked) nums) = Inr docs
     \<and> set docs \<subseteq> doc ` set ranked
     \<and> length docs \<le> MAX_SELECTED
     \<and> distinct (map path docs)
     \<and> (ranked \<noteq> [] \<longrightarrow> docs \<noteq> [])"
proof -
  have rng: "\<forall>i\<in>set (chosenIdxes (length ranked) nums). 1 \<le> i \<and> i \<le> int (length ranked)"
    using chosenIdxes_range by blast
  from pick_loop_ok[OF rng, of "[]" "[]"]
  obtain docs where d: "pick_loop ranked [] [] (chosenIdxes (length ranked) nums) = Inr docs"
    and p: "set docs \<subseteq> doc ` set ranked" "length docs \<le> MAX_SELECTED" "distinct (map path docs)"
    by (auto simp: MAX_SELECTED_def)
  have "docs \<noteq> []" if "ranked \<noteq> []"
    using pick_loop_first[OF chosenIdxes_nonempty rng d] that by simp
  with d p show ?thesis by blast
qed

lemma select_docs_cases:
  "select_docs E ranked content =
     (case get_member (parse_payload E content) ''selected_indices'' of
        Inl e \<Rightarrow> Inl e
      | Inr v \<Rightarrow>
          (case toNumberArray E v of
             Inl e \<Rightarrow> Inl e
           | Inr nums \<Rightarrow> pick_loop ranked [] [] (chosenIdxes (length ranked) nums)))"
  by (simp add: select_docs_def)

lemma select_docs_ok:
  assumes "select_docs E ranked content = Inr docs"
  shows "set docs \<subseteq> doc ` set ranked \<and> length docs \<le> MAX_SELECTED
     \<and> distinct (map path docs) \<and> (ranked \<noteq> [] \<longrightarrow> docs \<noteq> [])"
proof -
  from assms obtain nums where "pick_loop ranked [] [] (chosenIdxes (length ranked) nums) = Inr docs"
    by (auto simp: select_docs_def split: sum.splits)
  with pick_loop_chosen[of ranked nums] show ?thesis by auto
qed

lemma loadPathIndex_distinct:
  assumes "state_ok st" "loadPathIndex E st = (Inr index, st1)"
  shows "distinct (map path index) \<and> state_ok st1"
proof (cases "PATH_INDEX st")
  case (Some ix)
  with assms show ?thesis
    by (auto simp: loadPathIndex_def state_ok_def)
next
  case None
  show ?thesis
  proof (cases "source E")
    case None
    with \<open>PATH_INDEX st = None\<close> assms(2) show ?thesis
      by (simp add: loadPathIndex_def Let_def)
  next
    case (Some rows)
    from group_rows_empty[of rows] obtain m where m: "group_rows [] rows = Inr m"
      and keys: "map fst m = set_order [] (map row_path (filter usable rows))"
      by blast
    have "distinct (map path (build_index m))"
      by (simp add: path_build_index keys distinct_set_order)
    with Some \<open>PATH_INDEX st = None\<close> assms(2) m show ?thesis
      by (auto simp: loadPathIndex_def Let_def state_ok_def)
  qed
qed

lemma paths_scored: "map (\<lambda>c. path (doc c)) (scored index q) = map path index"
  by (rule nth_equalityI) (simp_all add: length_scored scored_nth)

lemma distinct_map_sort_desc: "distinct (map f (sort_desc xs)) = distinct (map f xs)"
proof -
  have "mset (map f (sort_desc xs)) = mset (map f xs)"
    by (simp add: mset_sort_desc)
  then show ?thesis
    by (rule mset_eq_imp_distinct_iff)
qed

lemma rank_index_distinct_paths:
  assumes "distinct (map path index)"
  shows "distinct (map (\<lambda>c. path (doc c)) (rank_index index q k))"
proof -
  have "distinct (map (\<lambda>c. path (doc c)) (sort_desc (scored index q)))"
    using assms by (simp add: distinct_map_sort_desc paths_scored)
  then show ?thesis
    by (simp add: rank_index_def Let_def slice0_def take_map[symmetric] distinct_take)
qed

lemma topPathCandidates_distinct:
  assumes "state_ok st" "topPathCandidates E st q k = (Inr ranked, st1)"
  shows "distinct (map (\<lambda>c. path (doc c)) ranked) \<and> state_ok st1"
proof -
  from assms(2) obtain index where l: "loadPathIndex E st = (Inr index, st1)"
    and r: "ranked = rank_index index q k"
    by (auto simp: topPathCandidates_def split: prod.splits sum.splits)
  from loadPathIndex_distinct[OF assms(1) l] r show ?thesis
    by (simp add: rank_index_distinct_paths)
qed

lemma toNumberArray_not_array: "\<forall>xs. v \<noteq> Some (JArr xs) \<Longrightarrow> toNumberArray E v = Inr []"
  by (auto simp: toNumberArray_def split: option.splits json.splits)

text \<open>
  The fallback where the code reaches it. The candidates are those the prefilter
  returned in a state that satisfies the invariant. If the selector's reply does not
  parse, or \<open>selected_indices\<close> is read without a throw and is not an array, or
  \<open>toNumberArray\<close> returns and its integers are all outside \<open>1 .. length ranked\<close>, then
  the selection is the first \<open>min 3 (length ranked)\<close> candidates' documents, in rank
  order.
\<close>

lemma fallback_when_reads_succeed:
  assumes "state_ok st" and "topPathCandidates E st q k = (Inr ranked, st1)"
    and "JSON_parse E (raw_content content) = None
       \<or> (\<exists>v. get_member (parse_payload E content) ''selected_indices'' = Inr v
              \<and> (\<forall>xs. v \<noteq> Some (JArr xs)))
       \<or> (\<exists>v nums. get_member (parse_payload E content) ''selected_indices'' = Inr v
              \<and> toNumberArray E v = Inr nums
              \<and> filter (\<lambda>n. 1 \<le> n \<and> n \<le> int (length ranked)) nums = [])"
  shows "select_docs E ranked content = Inr (map doc (take (min 3 (length ranked)) ranked))"
proof -
  have "\<exists>v nums. get_member (parse_payload E content) ''selected_indices'' = Inr v
              \<and> toNumberArray E v = Inr nums
              \<and> filter (\<lambda>n. 1 \<le> n \<and> n \<le> int (length ranked)) nums = []"
    using assms(3)
  proof (elim disjE exE conjE)
    assume "JSON_parse E (raw_content content) = None"
    then have "get_member (parse_payload E content) ''selected_indices'' = Inr None"
      by (simp add: parse_payload_def get_member_def)
    moreover have "toNumberArray E None = Inr []"
      by (simp add: toNumberArray_def)
    ultimately show ?thesis by auto
  next
    fix v
    assume "get_member (parse_payload E content) ''selected_indices'' = Inr v"
      and "\<forall>xs. v \<noteq> Some (JArr xs)"
    then show ?thesis
      using toNumberArray_not_array[of v E] by auto
  next
    fix v nums
    assume "get_member (parse_payload E content) ''selected_indices'' = Inr v"
      "toNumberArray E v = Inr nums"
      "filter (\<lambda>n. 1 \<le> n \<and> n \<le> int (length ranked)) nums = []"
    then show ?thesis by blast
  qed
  then obtain v nums where g: "get_member (parse_payload E content) ''selected_indices'' = Inr v"
    and n: "toNumberArray E v = Inr nums"
    and f: "filter (\<lambda>n. 1 \<le> n \<and> n \<le> int (length ranked)) nums = []"
    by blast
  have "select_docs E ranked content = pick_loop ranked [] [] (take (min 3 (length ranked)) [1, 2, 3])"
    by (simp add: select_docs_cases g n chosenIdxes_fallback[OF f])
  also have "\<dots> = Inr (map doc (take (min 3 (length ranked)) ranked))"
    using topPathCandidates_distinct[OF assms(1,2)] by (simp add: pick_loop_fallback)
  finally show ?thesis .
qed

text \<open>
  C9. Where the chosen indices are resolved, every one of them lies in
  \<open>1 .. length ranked\<close>, so the loop over them never reads \<open>ranked\<close> out of range and
  returns documents. When no index survives the range filter the chosen indices are
  \<open>1 .. min 3 (length ranked)\<close>. The selection can only throw before that point, in
  reading \<open>selected_indices\<close> or in \<open>toNumberArray\<close>.
\<close>

theorem chosen_indices_in_bounds:
  "(\<forall>i\<in>set (chosenIdxes (length ranked) nums). 1 \<le> i \<and> i \<le> int (length ranked))
   \<and> (\<exists>docs. pick_loop ranked [] [] (chosenIdxes (length ranked) nums) = Inr docs)
   \<and> (filter (\<lambda>n. 1 \<le> n \<and> n \<le> int (length ranked)) nums = [] \<longrightarrow>
        chosenIdxes (length ranked) nums = map int [1..<Suc (min 3 (length ranked))])
   \<and> (select_docs E ranked content = Inl e \<longrightarrow>
        get_member (parse_payload E content) ''selected_indices'' = Inl e
        \<or> (\<exists>v. get_member (parse_payload E content) ''selected_indices'' = Inr v
               \<and> toNumberArray E v = Inl e))"
proof -
  have 1: "\<forall>i\<in>set (chosenIdxes (length ranked) nums). 1 \<le> i \<and> i \<le> int (length ranked)"
    using chosenIdxes_range by blast
  have 2: "\<exists>docs. pick_loop ranked [] [] (chosenIdxes (length ranked) nums) = Inr docs"
    using pick_loop_chosen[of ranked nums] by blast
  have up: "take (min 3 len) [1, 2, 3 :: int] = map int [1..<Suc (min 3 len)]" for len
    by (simp add: fallback_cases upt_rec)
  have 3: "filter (\<lambda>n. 1 \<le> n \<and> n \<le> int (length ranked)) nums = [] \<longrightarrow>
        chosenIdxes (length ranked) nums = map int [1..<Suc (min 3 (length ranked))]"
    using chosenIdxes_fallback[of "length ranked" nums] up by simp
  have 4: "select_docs E ranked content = Inl e \<longrightarrow>
        get_member (parse_payload E content) ''selected_indices'' = Inl e
        \<or> (\<exists>v. get_member (parse_payload E content) ''selected_indices'' = Inr v
               \<and> toNumberArray E v = Inl e)"
  proof
    assume a: "select_docs E ranked content = Inl e"
    show "get_member (parse_payload E content) ''selected_indices'' = Inl e
        \<or> (\<exists>v. get_member (parse_payload E content) ''selected_indices'' = Inr v
               \<and> toNumberArray E v = Inl e)"
    proof (cases "get_member (parse_payload E content) ''selected_indices''")
      case (Inl e')
      with a show ?thesis by (simp add: select_docs_cases)
    next
      case (Inr v)
      note g = this
      show ?thesis
      proof (cases "toNumberArray E v")
        case (Inl e')
        with a g show ?thesis by (simp add: select_docs_cases)
      next
        case (Inr ns)
        with a g pick_loop_chosen[of ranked ns] show ?thesis
          by (auto simp: select_docs_cases)
      qed
    qed
  qed
  from 1 2 3 4 show ?thesis by blast
qed


lemma fallback_when_reads_succeed_example:
  "state_ok example_state
   \<and> topPathCandidates (example_env (Some ''oops'')) example_state ''hardware revenue'' PREFILTER_TOP_K
       = (Inr (rank_index example_index ''hardware revenue'' PREFILTER_TOP_K),
          \<lparr>PATH_INDEX = Some example_index, reads = 1\<rparr>)
   \<and> JSON_parse (example_env (Some ''oops'')) (raw_content (Some ''oops'')) = None
   \<and> select_docs (example_env (Some ''oops''))
         (rank_index example_index ''hardware revenue'' PREFILTER_TOP_K) (Some ''oops'')
       = Inr (rev example_index)"
proof -
  have h1: "state_ok example_state"
    by (simp add: state_ok_def example_state_def)
  have h2: "topPathCandidates (example_env (Some ''oops'')) example_state ''hardware revenue'' PREFILTER_TOP_K
       = (Inr (rank_index example_index ''hardware revenue'' PREFILTER_TOP_K),
          \<lparr>PATH_INDEX = Some example_index, reads = 1\<rparr>)"
    by code_simp
  have h3: "JSON_parse (example_env (Some ''oops'')) (raw_content (Some ''oops'')) = None"
    by code_simp
  have ev: "map doc (take (min 3 (length (rank_index example_index ''hardware revenue'' PREFILTER_TOP_K)))
               (rank_index example_index ''hardware revenue'' PREFILTER_TOP_K)) = rev example_index"
    by code_simp
  from fallback_when_reads_succeed[OF h1 h2 disjI1, OF h3] ev h1 h2 h3 show ?thesis
    by simp
qed

theorem chosen_indices_in_bounds_witness:
  "chosenIdxes (length (rank_index example_index ''hardware revenue'' PREFILTER_TOP_K)) [2, 2, 9, 0] = [2]
   \<and> (1::int) \<le> 2
   \<and> 2 \<le> int (length (rank_index example_index ''hardware revenue'' PREFILTER_TOP_K))
   \<and> (\<exists>docs. pick_loop (rank_index example_index ''hardware revenue'' PREFILTER_TOP_K) [] [] [2]
         = Inr docs)"
proof -
  have c: "chosenIdxes (length (rank_index example_index ''hardware revenue'' PREFILTER_TOP_K)) [2, 2, 9, 0] = [2]"
    by code_simp
  from chosen_indices_in_bounds[of "rank_index example_index ''hardware revenue'' PREFILTER_TOP_K" "[2, 2, 9, 0]"]
  show ?thesis unfolding c by simp
qed

text \<open>
  C1, at two failing inputs. With two candidates, the selector's reply \<^verbatim>\<open>null\<close> is
  parsed without error to a value whose \<open>selected_indices\<close> is no array, and the reply
  \<^verbatim>\<open>{"selected_indices":[{"toString":1}]}\<close> is parsed to an array with no integer in it;
  both are replies for which C1 promises the first \<open>min 3 (length ranked)\<close> candidates.
  The selection throws on both instead: on the first in reading \<open>selected_indices\<close> of
  \<^verbatim>\<open>null\<close>, on the second in \<^verbatim>\<open>Number(x)\<close> inside \<open>toNumberArray\<close>.
\<close>

theorem fallback_missed_on_null_payload:
  "length (rank_index example_index ''hardware revenue'' PREFILTER_TOP_K) = 2
   \<and> JSON_parse (example_env (Some ''null'')) (raw_content (Some ''null'')) = Some JNull
   \<and> select_docs (example_env (Some ''null''))
        (rank_index example_index ''hardware revenue'' PREFILTER_TOP_K) (Some ''null'')
       = Inl TypeError
   \<and> select_docs (example_env (Some ''null''))
        (rank_index example_index ''hardware revenue'' PREFILTER_TOP_K) (Some ''null'')
       \<noteq> Inr (map doc (take (min 3 (length (rank_index example_index ''hardware revenue''
                  PREFILTER_TOP_K))) (rank_index example_index ''hardware revenue'' PREFILTER_TOP_K)))
   \<and> parse_payload (example_env None) (Some ''{\"selected_indices\":[{\"toString\":1}]}'')
       = JObj [(''selected_indices'', JArr [JObj [(''toString'', JNum (Integral 1))]])]
   \<and> select_docs (example_env None)
        (rank_index example_index ''hardware revenue'' PREFILTER_TOP_K)
        (Some ''{\"selected_indices\":[{\"toString\":1}]}'')
       = Inl TypeError"
  by code_simp

text \<open>
  C5, at a failing input. With two candidates, the selector's reply \<^verbatim>\<open>null\<close> parses
  without error, and reading \<open>selected_indices\<close> of it throws: the selection returns no
  documents, and the handler answers a well-formed request with status 500. The same
  happens in \<open>toNumberArray\<close> for an index that is an object with an own \<^verbatim>\<open>toString\<close>
  member.
\<close>

theorem selection_throws_on_null_payload:
  "length (rank_index example_index ''hardware revenue'' PREFILTER_TOP_K) = 2
   \<and> select_docs (example_env (Some ''null''))
        (rank_index example_index ''hardware revenue'' PREFILTER_TOP_K) (Some ''null'')
       = Inl TypeError
   \<and> select_docs (example_env (Some ''{\"selected_indices\":[{\"toString\":1}]}''))
        (rank_index example_index ''hardware revenue'' PREFILTER_TOP_K)
        (Some ''{\"selected_indices\":[{\"toString\":1}]}'')
       = Inl TypeError
   \<and> fst (POST (example_env (Some ''null'')) example_state ''{\"userScenario\":\"hardware revenue\"}'')
       = \<lparr>status = 500, advice = SERVER_ERROR\<rparr>"
  by code_simp

section \<open>The handler\<close>

lemma dropWhile_replicate_append: "P x \<Longrightarrow> dropWhile P (replicate n x @ ys) = dropWhile P ys"
  by (induction n) simp_all

lemma is_ws_space: "is_ws (CHR '' '')"
  by (simp add: is_ws_def)

lemma trim_length: "length (trim str) \<le> length str"
proof -
  have "length (trim str) \<le> length (rev (dropWhile is_ws str))"
    using length_dropWhile_le[of is_ws "rev (dropWhile is_ws str)"] by (simp add: trim_def)
  also have "\<dots> \<le> length str"
    by (simp add: length_dropWhile_le)
  finally show ?thesis .
qed

lemma question_of_length: "length (question_of us) \<le> MAX_QUESTION_LEN"
proof -
  have "length (question_of us) \<le> length (slice_to MAX_QUESTION_LEN us)"
    unfolding question_of_def by (rule trim_length)
  also have "\<dots> \<le> MAX_QUESTION_LEN"
    by (simp add: slice_to_def)
  finally show ?thesis .
qed

text \<open>
  C4 as stated fails: the code truncates first and trims afterwards. For a thousand
  spaces followed by \<open>a\<close> the handler's question is empty (the request is answered with
  status 400), where trimming first would give \<open>a\<close>.
\<close>

theorem question_trim_then_slice_counterexample:
  "question_of (replicate 1000 (CHR '' '') @ ''a'') = []
   \<and> spec_question (replicate 1000 (CHR '' '') @ ''a'') = ''a''"
proof -
  have "slice_to MAX_QUESTION_LEN (replicate 1000 (CHR '' '') @ ''a'') = replicate 1000 (CHR '' '')"
    by (simp add: slice_to_def MAX_QUESTION_LEN_def)
  moreover have "trim (replicate 1000 (CHR '' '')) = []"
    using dropWhile_replicate_append[of is_ws "CHR '' ''" 1000 "[]"]
    by (simp add: trim_def is_ws_space)
  ultimately have 1: "question_of (replicate 1000 (CHR '' '') @ ''a'') = []"
    by (simp add: question_of_def)
  have "trim (replicate 1000 (CHR '' '') @ ''a'') = ''a''"
    by (simp add: trim_def dropWhile_replicate_append is_ws_space) (simp add: is_ws_def)
  then have 2: "spec_question (replicate 1000 (CHR '' '') @ ''a'') = ''a''"
    by (simp add: spec_question_def slice_to_def MAX_QUESTION_LEN_def)
  from 1 2 show ?thesis by simp
qed

text \<open>
  C4, as the code has it. For a request whose \<open>userScenario\<close> is a string, with the API
  key set, the question is the first 1000 characters of \<open>userScenario\<close>, trimmed; it
  has at most 1000 characters; and it is all the rest of the handler sees of the
  request: an empty question is answered with status 400, and otherwise the response is
  that of the pipeline run on the question.
\<close>

theorem question_is_slice_then_trim:
  assumes "apiKey E = Some key" and "key \<noteq> []"
    and "get_member_opt (request_body E body_text) ''userScenario'' = Some (JStr us)"
  shows "question_of us = trim (take 1000 us)
     \<and> length (question_of us) \<le> 1000
     \<and> POST E st body_text =
         (if question_of us = [] then (\<lparr>status = 400, advice = PROVIDE_QUESTION\<rparr>, st)
          else (case pipeline E st (question_of us) of
                  (Inl e, st1) \<Rightarrow> (\<lparr>status = 500, advice = SERVER_ERROR\<rparr>, st1)
                | (Inr r, st1) \<Rightarrow> (r, st1)))"
proof -
  have 1: "question_of us = trim (take 1000 us)"
    by (simp add: question_of_def slice_to_def MAX_QUESTION_LEN_def)
  have 2: "length (question_of us) \<le> 1000"
    using question_of_length[of us] by (simp add: MAX_QUESTION_LEN_def)
  have u: "userScenario_of E (request_body E body_text) = Inr us"
    using assms(3) by (simp add: userScenario_of_def)
  have 3: "POST E st body_text =
         (if question_of us = [] then (\<lparr>status = 400, advice = PROVIDE_QUESTION\<rparr>, st)
          else (case pipeline E st (question_of us) of
                  (Inl e, st1) \<Rightarrow> (\<lparr>status = 500, advice = SERVER_ERROR\<rparr>, st1)
                | (Inr r, st1) \<Rightarrow> (r, st1)))"
    using assms(1,2) by (simp add: POST_def u Let_def)
  from 1 2 3 show ?thesis by blast
qed

text \<open>
  C10. The claim is about lines 198 to 207, which run once the key guard before them
  has passed, that is with the API key set. There a request whose body is not JSON, or
  whose body has no \<open>userScenario\<close> member, is answered with status 400 and the advice
  \<open>Please provide a question.\<close>, never with status 500; the state is untouched.
\<close>

theorem bad_body_answers_400:
  assumes "apiKey E = Some key" and "key \<noteq> []"
    and "JSON_parse E body_text = None
       \<or> get_member_opt (request_body E body_text) ''userScenario'' = None"
  shows "POST E st body_text = (\<lparr>status = 400, advice = ''Please provide a question.''\<rparr>, st)"
proof -
  have "get_member_opt (request_body E body_text) ''userScenario'' = None"
    using assms(3) by (auto simp: request_body_def get_member_opt_def get_member_def)
  then have "userScenario_of E (request_body E body_text) = Inr []"
    by (simp add: userScenario_of_def)
  moreover have "question_of [] = []"
    by (simp add: question_of_def slice_to_def trim_def)
  ultimately show ?thesis
    using assms(1,2) by (simp add: POST_def Let_def PROVIDE_QUESTION_def)
qed


theorem question_is_slice_then_trim_witness:
  "apiKey (example_env None) = Some ''sk-example''
   \<and> ''sk-example'' \<noteq> []
   \<and> get_member_opt (request_body (example_env None) ''{\"userScenario\":\"hardware revenue\"}'')
         ''userScenario'' = Some (JStr ''hardware revenue'')
   \<and> question_of ''hardware revenue'' = ''hardware revenue''
   \<and> POST (example_env None) example_state ''{\"userScenario\":\"hardware revenue\"}'' =
         (case pipeline (example_env None) example_state ''hardware revenue'' of
            (Inl e, st1) \<Rightarrow> (\<lparr>status = 500, advice = SERVER_ERROR\<rparr>, st1)
          | (Inr r, st1) \<Rightarrow> (r, st1))"
proof -
  have h1: "apiKey (example_env None) = Some ''sk-example''"
    by (simp add: example_env_def)
  have h2: "''sk-example'' \<noteq> []"
    by simp
  have h3: "get_member_opt (request_body (example_env None) ''{\"userScenario\":\"hardware revenue\"}'')
         ''userScenario'' = Some (JStr ''hardware revenue'')"
    by code_simp
  have q: "question_of ''hardware revenue'' = ''hardware revenue''"
    by code_simp
  from question_is_slice_then_trim[OF h1 h2 h3, of example_state] h1 h3 q show ?thesis
    by simp
qed

theorem bad_body_answers_400_witness:
  "apiKey (example_env None) = Some ''sk-example''
   \<and> ''sk-example'' \<noteq> []
   \<and> JSON_parse (example_env None) ''oops'' = None
   \<and> POST (example_env None) example_state ''oops''
       = (\<lparr>status = 400, advice = ''Please provide a question.''\<rparr>, example_state)"
proof -
  have h1: "apiKey (example_env None) = Some ''sk-example''"
    by (simp add: example_env_def)
  have h2: "''sk-example'' \<noteq> []"
    by simp
  have h3: "JSON_parse (example_env None) ''oops'' = None"
    by (simp add: example_env_def example_parse_def)
  from bad_body_answers_400[OF h1 h2 disjI1, OF h3, of example_state] h1 h3 show ?thesis
    by simp
qed

lemma enum_map: "map f (enumerate 0 xs) = map (\<lambda>i. f (i, xs ! i)) [0..<length xs]"
  by (rule nth_equalityI) (simp_all add: nth_enumerate_eq)

lemma sources_block_lines:
  "sources_block picked =
     join [NL] (map (\<lambda>i. show_nat (Suc i) @ ''. **'' @ path (picked ! i) @ ''**'') [0..<length picked])"
  by (simp add: sources_block_def enum_map)

lemma answer_prompt_context:
  "buildAnswerPrompt E q picked =
     [(''system'', SYSTEM_ANSWER E),
      (''user'', ''Question: '' @ q @ [NL, NL] @ ''Context:'' @ [NL]
         @ join [NL, NL] (map (\<lambda>d. ''['' @ path d @ '']'' @ [NL] @ join [NL, NL] (contents d)) picked))]"
  by (simp add: buildAnswerPrompt_def)

lemma show_nat_examples:
  "show_nat 1 = ''1'' \<and> show_nat 2 = ''2'' \<and> show_nat 3 = ''3'' \<and> show_nat 4 = ''4''
   \<and> show_nat 10 = ''10'' \<and> show_nat 405 = ''405''"
  by (simp add: show_nat.simps digit_char_def)

lemma join_example: "join '', '' [''a'', ''b'', ''c''] = ''a, b, c'' \<and> join '', '' [] = []"
  by simp

lemma query_terms_example:
  "query_terms '' Hardware,  REVENUE_2! '' = [''hardware'', ''revenue_2'']"
  by code_simp

lemma short_list_cases:
  assumes "length xs \<le> 4"
  obtains "xs = []" | a where "xs = [a]" | a b where "xs = [a, b]"
    | a b c where "xs = [a, b, c]" | a b c d where "xs = [a, b, c, d]"
proof (cases xs)
  case Nil
  then show ?thesis by (rule that(1))
next
  case (Cons a x1)
  note A = this
  show ?thesis
  proof (cases x1)
    case Nil
    with A show ?thesis by (simp add: that(2))
  next
    case (Cons b x2)
    note B = this
    show ?thesis
    proof (cases x2)
      case Nil
      with A B show ?thesis by (simp add: that(3))
    next
      case (Cons c x3)
      note C = this
      show ?thesis
      proof (cases x3)
        case Nil
        with A B C show ?thesis by (simp add: that(4))
      next
        case (Cons d x4)
        with A B C assms have "x4 = []" by simp
        with A B C Cons show ?thesis by (simp add: that(5))
      qed
    qed
  qed
qed

lemma sources_block_numbered:
  assumes "length picked \<le> 4"
  shows "sources_block picked =
     join [NL] (map (\<lambda>(n, d). n @ ''. **'' @ path d @ ''**'')
                  (zip [''1'', ''2'', ''3'', ''4''] picked))"
  using assms
  by (cases picked rule: short_list_cases)
     (simp_all add: sources_block_def enumerate_simps show_nat.simps digit_char_def)


lemma zip_numbers_all: "length picked \<le> 4 \<Longrightarrow> map snd (zip [''1'', ''2'', ''3'', ''4''] picked) = picked"
  by (cases picked rule: short_list_cases) simp_all

text \<open>
  C8, as the code has it. When the prefilter returns candidates and the pipeline
  returns a response, the response has status 200, and its advice is the model's answer
  text with the white space at both ends trimmed off (empty when the reply has no
  content), an empty line, the line \<open>Sources:\<close>, and one line \<open>n. **path**\<close> for each picked
  document, \<open>n\<close> being 1, 2, 3, 4 in the order of picking. Every picked document is
  listed; the picked documents are the very list the answer prompt's context was built
  from, block by block; their paths are pairwise distinct; each is a candidate's
  document; and there are between one and four of them.
\<close>

theorem advice_lists_picked_sources:
  assumes "topPathCandidates E st q PREFILTER_TOP_K = (Inr ranked, st1)" and "ranked \<noteq> []"
    and "pipeline E st q = (Inr r, st2)"
  shows "\<exists>content picked answer.
        selector_completion E (buildSelectorPrompt E q ranked) = Inr content
      \<and> select_docs E ranked content = Inr picked
      \<and> answer_completion E (buildAnswerPrompt E q picked) = Inr answer
      \<and> snd (buildAnswerPrompt E q picked ! 1) =
          ''Question: '' @ q @ [NL, NL] @ ''Context:'' @ [NL]
            @ join [NL, NL] (map (\<lambda>d. ''['' @ path d @ '']'' @ [NL] @ join [NL, NL] (contents d)) picked)
      \<and> status r = 200
      \<and> advice r = (case answer of None \<Rightarrow> [] | Some c \<Rightarrow> trim c) @ [NL, NL] @ ''Sources:'' @ [NL]
          @ join [NL] (map (\<lambda>(n, d). n @ ''. **'' @ path d @ ''**'')
                         (zip [''1'', ''2'', ''3'', ''4''] picked))
      \<and> map snd (zip [''1'', ''2'', ''3'', ''4''] picked) = picked
      \<and> distinct (map path picked)
      \<and> set picked \<subseteq> doc ` set ranked
      \<and> picked \<noteq> [] \<and> length picked \<le> 4"
proof -
  from assms obtain content where c: "selector_completion E (buildSelectorPrompt E q ranked) = Inr content"
    by (cases "selector_completion E (buildSelectorPrompt E q ranked)") (auto simp: pipeline_def)
  from assms c obtain picked where p: "select_docs E ranked content = Inr picked"
    by (cases "select_docs E ranked content") (auto simp: pipeline_def)
  from assms c p obtain answer where a: "answer_completion E (buildAnswerPrompt E q picked) = Inr answer"
    by (cases "answer_completion E (buildAnswerPrompt E q picked)") (auto simp: pipeline_def)
  from assms c p a have r: "r = \<lparr>status = 200, advice = make_advice (answerText answer) picked\<rparr>"
    by (auto simp: pipeline_def)
  from select_docs_ok[OF p] assms(2)
  have ok: "distinct (map path picked)" "set picked \<subseteq> doc ` set ranked" "picked \<noteq> []" "length picked \<le> 4"
    by (simp_all add: MAX_SELECTED_def)
  have adv: "advice r = (case answer of None \<Rightarrow> [] | Some c \<Rightarrow> trim c) @ [NL, NL] @ ''Sources:'' @ [NL]
          @ join [NL] (map (\<lambda>(n, d). n @ ''. **'' @ path d @ ''**'')
                         (zip [''1'', ''2'', ''3'', ''4''] picked))"
    by (simp add: r make_advice_def answerText_def sources_block_numbered[OF ok(4)])
  have all: "map snd (zip [''1'', ''2'', ''3'', ''4''] picked) = picked"
    by (rule zip_numbers_all[OF ok(4)])
  have ctx: "snd (buildAnswerPrompt E q picked ! 1) =
          ''Question: '' @ q @ [NL, NL] @ ''Context:'' @ [NL]
            @ join [NL, NL] (map (\<lambda>d. ''['' @ path d @ '']'' @ [NL] @ join [NL, NL] (contents d)) picked)"
    by (simp add: answer_prompt_context)
  have st: "status r = 200"
    by (simp add: r)
  show ?thesis
    using c p a ctx st adv all ok by blast
qed

theorem advice_lists_picked_sources_witness:
  "topPathCandidates (example_env (Some ''{\"selected_indices\":[2,1,2,9]}'')) example_state
       ''hardware revenue'' PREFILTER_TOP_K
     = (Inr (rank_index example_index ''hardware revenue'' PREFILTER_TOP_K),
        \<lparr>PATH_INDEX = Some example_index, reads = 1\<rparr>)
   \<and> map (\<lambda>c. path (doc c)) (rank_index example_index ''hardware revenue'' PREFILTER_TOP_K)
     = [''Item 7 MD&A'', ''Item 1 Business'']
   \<and> rank_index example_index ''hardware revenue'' PREFILTER_TOP_K \<noteq> []
   \<and> select_docs (example_env (Some ''{\"selected_indices\":[2,1,2,9]}''))
        (rank_index example_index ''hardware revenue'' PREFILTER_TOP_K)
        (Some ''{\"selected_indices\":[2,1,2,9]}'') = Inr example_index
   \<and> pipeline (example_env (Some ''{\"selected_indices\":[2,1,2,9]}'')) example_state ''hardware revenue''
     = (Inr \<lparr>status = 200,
             advice = ''Hardware demand drove revenue.'' @ [NL, NL] @ ''Sources:'' @ [NL]
                        @ ''1. **Item 1 Business**'' @ [NL] @ ''2. **Item 7 MD&A**''\<rparr>,
        \<lparr>PATH_INDEX = Some example_index, reads = 1\<rparr>)
   \<and> (\<exists>picked answer.
         select_docs (example_env (Some ''{\"selected_indices\":[2,1,2,9]}''))
           (rank_index example_index ''hardware revenue'' PREFILTER_TOP_K)
           (Some ''{\"selected_indices\":[2,1,2,9]}'') = Inr picked
         \<and> ''Hardware demand drove revenue.'' @ [NL, NL] @ ''Sources:'' @ [NL]
               @ ''1. **Item 1 Business**'' @ [NL] @ ''2. **Item 7 MD&A**''
             = (case answer of None \<Rightarrow> [] | Some c \<Rightarrow> trim c) @ [NL, NL] @ ''Sources:'' @ [NL]
               @ join [NL] (map (\<lambda>(n, d). n @ ''. **'' @ path d @ ''**'')
                              (zip [''1'', ''2'', ''3'', ''4''] picked))
         \<and> distinct (map path picked) \<and> picked \<noteq> [])"
proof -
  have h1: "topPathCandidates (example_env (Some ''{\"selected_indices\":[2,1,2,9]}'')) example_state
       ''hardware revenue'' PREFILTER_TOP_K
     = (Inr (rank_index example_index ''hardware revenue'' PREFILTER_TOP_K),
        \<lparr>PATH_INDEX = Some example_index, reads = 1\<rparr>)"
    by code_simp
  have h2: "rank_index example_index ''hardware revenue'' PREFILTER_TOP_K \<noteq> []"
    by code_simp
  have h3: "pipeline (example_env (Some ''{\"selected_indices\":[2,1,2,9]}'')) example_state ''hardware revenue''
     = (Inr \<lparr>status = 200,
             advice = ''Hardware demand drove revenue.'' @ [NL, NL] @ ''Sources:'' @ [NL]
                        @ ''1. **Item 1 Business**'' @ [NL] @ ''2. **Item 7 MD&A**''\<rparr>,
        \<lparr>PATH_INDEX = Some example_index, reads = 1\<rparr>)"
    by code_simp
  have e1: "map (\<lambda>c. path (doc c)) (rank_index example_index ''hardware revenue'' PREFILTER_TOP_K)
     = [''Item 7 MD&A'', ''Item 1 Business'']"
    by code_simp
  have e2: "select_docs (example_env (Some ''{\"selected_indices\":[2,1,2,9]}''))
        (rank_index example_index ''hardware revenue'' PREFILTER_TOP_K)
        (Some ''{\"selected_indices\":[2,1,2,9]}'') = Inr example_index"
    by code_simp
  have s: "selector_completion (example_env (Some ''{\"selected_indices\":[2,1,2,9]}'')) msgs
       = Inr (Some ''{\"selected_indices\":[2,1,2,9]}'')" for msgs
    by (simp add: example_env_def)
  from advice_lists_picked_sources[OF h1 h2 h3] have "\<exists>picked answer.
         select_docs (example_env (Some ''{\"selected_indices\":[2,1,2,9]}''))
           (rank_index example_index ''hardware revenue'' PREFILTER_TOP_K)
           (Some ''{\"selected_indices\":[2,1,2,9]}'') = Inr picked
         \<and> ''Hardware demand drove revenue.'' @ [NL, NL] @ ''Sources:'' @ [NL]
               @ ''1. **Item 1 Business**'' @ [NL] @ ''2. **Item 7 MD&A**''
             = (case answer of None \<Rightarrow> [] | Some c \<Rightarrow> trim c) @ [NL, NL] @ ''Sources:'' @ [NL]
               @ join [NL] (map (\<lambda>(n, d). n @ ''. **'' @ path d @ ''**'')
                              (zip [''1'', ''2'', ''3'', ''4''] picked))
         \<and> distinct (map path picked) \<and> picked \<noteq> []"
    unfolding s response.simps by blast
  with h1 h2 h3 e1 e2 show ?thesis by blast
qed

text \<open>
  C8 as stated fails where the model's answer text has white space at an end: the
  advice starts with the trimmed text, not with the text the model returned.
\<close>

theorem advice_untrimmed_answer_counterexample:
  "answer_completion (example_env (Some ''{\"selected_indices\":[2,1,2,9]}''))
       (buildAnswerPrompt (example_env (Some ''{\"selected_indices\":[2,1,2,9]}''))
          ''hardware revenue'' example_index)
     = Inr (Some '' Hardware demand drove revenue. '')
   \<and> advice (projr (fst (pipeline (example_env (Some ''{\"selected_indices\":[2,1,2,9]}''))
                          example_state ''hardware revenue'')))
     = ''Hardware demand drove revenue.'' @ [NL, NL] @ ''Sources:'' @ [NL]
         @ ''1. **Item 1 Business**'' @ [NL] @ ''2. **Item 7 MD&A**''
   \<and> advice (projr (fst (pipeline (example_env (Some ''{\"selected_indices\":[2,1,2,9]}''))
                          example_state ''hardware revenue'')))
     \<noteq> '' Hardware demand drove revenue. '' @ [NL, NL] @ ''Sources:'' @ [NL]
         @ ''1. **Item 1 Business**'' @ [NL] @ ''2. **Item 7 MD&A**''"
proof -
  have a: "answer_completion (example_env (Some ''{\"selected_indices\":[2,1,2,9]}'')) msgs
     = Inr (Some '' Hardware demand drove revenue. '')" for msgs
    by (simp add: example_env_def)
  have p: "pipeline (example_env (Some ''{\"selected_indices\":[2,1,2,9]}'')) example_state ''hardware revenue''
     = (Inr \<lparr>status = 200,
             advice = ''Hardware demand drove revenue.'' @ [NL, NL] @ ''Sources:'' @ [NL]
                        @ ''1. **Item 1 Business**'' @ [NL] @ ''2. **Item 7 MD&A**''\<rparr>,
        \<lparr>PATH_INDEX = Some example_index, reads = 1\<rparr>)"
    by code_simp
  show ?thesis
    unfolding a p by simp
qed

end
